theory Spec2Isabelle
  imports Complex_Main "HOL-Library.Monad_Syntax" "HOL-Library.Signed_Division"
begin

section \<open>Data model of polygon\_operations.c\<close>

text \<open>
  The C type \<open>double\<close> is modelled by \<^typ>\<open>real\<close>: arithmetic is exact and there are
  no infinities and no NaN.  Where a C operation has no real number as its result, the
  model faults instead: every function returns an \<open>option\<close>, and \<open>None\<close> stands for a
  fault of the C program, namely
  \<^item> a division or a remainder whose divisor is zero,
  \<^item> a square root of a negative number,
  \<^item> an index outside the point buffer,
  \<^item> a read of a memory slot that was never written.

  The C type \<open>int\<close> is modelled by \<^typ>\<open>int\<close>.  The arithmetic on it is \<open>i + 1\<close>,
  computed only under the loop guard \<open>i < length\<close> and so without overflow, the
  remainder \<open>(i + 1) % length\<close>, and the \<open>length - 1\<close> of the ray casting loop.

  A polygon is a buffer \<open>points\<close> together with a length; the properties below are
  about the polygon whose vertices are all the points of the buffer, that is, about the
  length \<open>int (length points)\<close>.
\<close>

type_synonym double = real

text \<open>\<open>typedef struct { double x; double y; } Point;\<close>  The fields are called
  \<open>point_x\<close> and \<open>point_y\<close> so that \<open>x\<close> and \<open>y\<close> stay free for the parameters.\<close>

record Point =
  point_x :: double
  point_y :: double

text \<open>\<open>points[i]\<close> on a buffer that holds \<open>length points\<close> elements.\<close>

definition point_at :: "Point list \<Rightarrow> int \<Rightarrow> Point option" where
  "point_at points i =
     (if 0 \<le> i \<and> i < int (length points) then Some (points ! nat i) else None)"

text \<open>\<open>a / b\<close> on doubles, \<open>a % b\<close> on ints, \<open>sqrt\<close> and \<open>pow(a, 2)\<close>.\<close>

definition fdiv :: "double \<Rightarrow> double \<Rightarrow> double option" where
  "fdiv a b = (if b = 0 then None else Some (a / b))"

definition imod :: "int \<Rightarrow> int \<Rightarrow> int option" where
  "imod a b = (if b = 0 then None else Some (a smod b))"

definition fsqrt :: "double \<Rightarrow> double option" where
  "fsqrt a = (if a < 0 then None else Some (sqrt a))"

definition pow2 :: "double \<Rightarrow> double" where
  "pow2 a = a ^ 2"

text \<open>Memory reached through \<open>double*\<close> parameters: a map from addresses to the
  doubles stored there.  An address that was never written holds no value.\<close>

type_synonym addr = nat
type_synonym store = "addr \<rightharpoonup> double"

section \<open>Point in polygon\<close>

text \<open>The crossing test of one loop iteration (lines 29--30).  \<open>&&\<close> evaluates its
  right operand, and with it the division, only when the left operand holds.\<close>

definition intersect_test ::
  "double \<Rightarrow> double \<Rightarrow> double \<Rightarrow> double \<Rightarrow> double \<Rightarrow> double \<Rightarrow> bool option" where
  "intersect_test x y xi yi xj yj =
     (if (yi > y) \<noteq> (yj > y)
      then do { q \<leftarrow> fdiv ((xj - xi) * (y - yi)) (yj - yi); Some (x < q + xi) }
      else Some False)"

text \<open>\<open>for (int i = 0, j = length - 1; i < length; j = i++)\<close>\<close>

function is_point_in_polygon_loop ::
  "double \<Rightarrow> double \<Rightarrow> Point list \<Rightarrow> int \<Rightarrow> int \<Rightarrow> int \<Rightarrow> bool \<Rightarrow> bool option" where
  "is_point_in_polygon_loop x y points len i j inside =
     (if i < len then do {
        p_i \<leftarrow> point_at points i;
        p_j \<leftarrow> point_at points j;
        intersect \<leftarrow> intersect_test x y (point_x p_i) (point_y p_i) (point_x p_j) (point_y p_j);
        is_point_in_polygon_loop x y points len (i + 1) i (if intersect then \<not> inside else inside)
      } else Some inside)"
  by pat_completeness auto
termination
  by (relation "measure (\<lambda>(x, y, points, len, i, j, inside). nat (len - i))") auto

declare is_point_in_polygon_loop.simps [simp del]

definition is_point_in_polygon :: "double \<Rightarrow> double \<Rightarrow> Point list \<Rightarrow> int \<Rightarrow> bool option" where
  "is_point_in_polygon x y points len =
     is_point_in_polygon_loop x y points len 0 (len - 1) False"

section \<open>Distance from a point to a segment\<close>


section \<open>Intersection of two segments\<close>

text \<open>The expression assigned to \<open>onSegment1\<close> and to \<open>onSegment2\<close> (lines 100--106):
  \<open>fmin(q1x, q2x) <= *ix && *ix <= fmax(q1x, q2x) && fmin(q1y, q2y) <= *iy && *iy <= fmax(q1y, q2y)\<close>.
  \<open>*iy\<close> is read only when the two comparisons on \<open>*ix\<close> hold.\<close>

definition on_segment ::
  "double \<Rightarrow> double \<Rightarrow> double \<Rightarrow> double \<Rightarrow> addr \<Rightarrow> addr \<Rightarrow> store \<Rightarrow> bool option" where
  "on_segment q1x q1y q2x q2y ix iy s = do {
     vx \<leftarrow> s ix;
     if min q1x q2x \<le> vx \<and> vx \<le> max q1x q2x
     then do { vy \<leftarrow> s iy; Some (min q1y q2y \<le> vy \<and> vy \<le> max q1y q2y) }
     else Some False
   }"

text \<open>\<open>ix\<close> and \<open>iy\<close> are the addresses of the two output slots, \<open>s\<close> is the memory
  before the call; the result is the returned flag and the memory after the call.\<close>

definition calculate_intersection ::
  "double \<Rightarrow> double \<Rightarrow> double \<Rightarrow> double \<Rightarrow> double \<Rightarrow> double \<Rightarrow> double \<Rightarrow> double \<Rightarrow>
   addr \<Rightarrow> addr \<Rightarrow> store \<Rightarrow> (int \<times> store) option" where
  "calculate_intersection p1x p1y p2x p2y p3x p3y p4x p4y ix iy s =
     (let a1 = p2y - p1y;
          b1 = p1x - p2x;
          c1 = a1 * p1x + b1 * p1y;
          a2 = p4y - p3y;
          b2 = p3x - p4x;
          c2 = a2 * p3x + b2 * p3y;
          determinant = a1 * b2 - a2 * b1
      in if determinant = 0 then Some (0, s)
         else do {
           qx \<leftarrow> fdiv (b2 * c1 - b1 * c2) determinant;
           let s1 = s(ix \<mapsto> qx);
           qy \<leftarrow> fdiv (a1 * c2 - a2 * c1) determinant;
           let s2 = s1(iy \<mapsto> qy);
           onSegment1 \<leftarrow> on_segment p1x p1y p2x p2y ix iy s2;
           onSegment2 \<leftarrow> on_segment p3x p3y p4x p4y ix iy s2;
           if onSegment1 \<and> onSegment2 then Some (1, s2) else Some (0, s2)
         })"

section \<open>Area, perimeter and bounding box\<close>

function calculate_polygon_area_loop ::
  "Point list \<Rightarrow> int \<Rightarrow> int \<Rightarrow> double \<Rightarrow> double option" where
  "calculate_polygon_area_loop points len i area =
     (if i < len then do {
        j \<leftarrow> imod (i + 1) len;
        p_i \<leftarrow> point_at points i;
        p_j \<leftarrow> point_at points j;
        let area1 = area + point_x p_i * point_y p_j;
        let area2 = area1 - point_x p_j * point_y p_i;
        calculate_polygon_area_loop points len (i + 1) area2
      } else Some area)"
  by pat_completeness auto
termination
  by (relation "measure (\<lambda>(points, len, i, area). nat (len - i))") auto

declare calculate_polygon_area_loop.simps [simp del]

definition calculate_polygon_area :: "Point list \<Rightarrow> int \<Rightarrow> double option" where
  "calculate_polygon_area points len = do {
     area \<leftarrow> calculate_polygon_area_loop points len 0 0;
     h \<leftarrow> fdiv area 2;
     Some \<bar>h\<bar>
   }"

function calculate_polygon_perimeter_loop ::
  "Point list \<Rightarrow> int \<Rightarrow> int \<Rightarrow> double \<Rightarrow> double option" where
  "calculate_polygon_perimeter_loop points len i perimeter =
     (if i < len then do {
        j \<leftarrow> imod (i + 1) len;
        p_i \<leftarrow> point_at points i;
        p_j \<leftarrow> point_at points j;
        d \<leftarrow> fsqrt (pow2 (point_x p_j - point_x p_i) + pow2 (point_y p_j - point_y p_i));
        calculate_polygon_perimeter_loop points len (i + 1) (perimeter + d)
      } else Some perimeter)"
  by pat_completeness auto
termination
  by (relation "measure (\<lambda>(points, len, i, perimeter). nat (len - i))") auto

declare calculate_polygon_perimeter_loop.simps [simp del]

definition calculate_polygon_perimeter :: "Point list \<Rightarrow> int \<Rightarrow> double option" where
  "calculate_polygon_perimeter points len = calculate_polygon_perimeter_loop points len 0 0"

text \<open>\<open>if (v < *a) *a = v;\<close> and \<open>if (v > *a) *a = v;\<close>\<close>

definition lower_slot :: "double \<Rightarrow> addr \<Rightarrow> store \<Rightarrow> store option" where
  "lower_slot v a s = do { m \<leftarrow> s a; Some (if v < m then s(a \<mapsto> v) else s) }"

definition raise_slot :: "double \<Rightarrow> addr \<Rightarrow> store \<Rightarrow> store option" where
  "raise_slot v a s = do { m \<leftarrow> s a; Some (if v > m then s(a \<mapsto> v) else s) }"

function calculate_bounding_box_loop ::
  "Point list \<Rightarrow> int \<Rightarrow> addr \<Rightarrow> addr \<Rightarrow> addr \<Rightarrow> addr \<Rightarrow> int \<Rightarrow> store \<Rightarrow> store option" where
  "calculate_bounding_box_loop points len minX minY maxX maxY i s =
     (if i < len then do {
        p \<leftarrow> point_at points i;
        s1 \<leftarrow> lower_slot (point_x p) minX s;
        s2 \<leftarrow> lower_slot (point_y p) minY s1;
        s3 \<leftarrow> raise_slot (point_x p) maxX s2;
        s4 \<leftarrow> raise_slot (point_y p) maxY s3;
        calculate_bounding_box_loop points len minX minY maxX maxY (i + 1) s4
      } else Some s)"
  by pat_completeness auto
termination
  by (relation "measure (\<lambda>(points, len, minX, minY, maxX, maxY, i, s). nat (len - i))") auto

declare calculate_bounding_box_loop.simps [simp del]

definition calculate_bounding_box ::
  "Point list \<Rightarrow> int \<Rightarrow> addr \<Rightarrow> addr \<Rightarrow> addr \<Rightarrow> addr \<Rightarrow> store \<Rightarrow> store option" where
  "calculate_bounding_box points len minX minY maxX maxY s =
     (if len = 0 then Some (s(minX \<mapsto> 0, minY \<mapsto> 0, maxX \<mapsto> 0, maxY \<mapsto> 0))
      else do {
        p \<leftarrow> point_at points 0;
        let s0 = s(minX \<mapsto> point_x p, minY \<mapsto> point_y p, maxX \<mapsto> point_x p, maxY \<mapsto> point_y p);
        calculate_bounding_box_loop points len minX minY maxX maxY 1 s0
      })"

section \<open>Intersection of two polygons\<close>

text \<open>The first two loops of \<open>do_polygons_intersect\<close> are the same loop with the two
  polygons exchanged: \<open>Some True\<close> is the \<open>return true\<close> inside the loop, \<open>Some False\<close>
  is the loop running to its end.\<close>

function vertex_loop :: "Point list \<Rightarrow> int \<Rightarrow> Point list \<Rightarrow> int \<Rightarrow> int \<Rightarrow> bool option" where
  "vertex_loop poly1 len1 poly2 len2 i =
     (if i < len1 then do {
        p \<leftarrow> point_at poly1 i;
        inside \<leftarrow> is_point_in_polygon (point_x p) (point_y p) poly2 len2;
        if inside then Some True else vertex_loop poly1 len1 poly2 len2 (i + 1)
      } else Some False)"
  by pat_completeness auto
termination
  by (relation "measure (\<lambda>(poly1, len1, poly2, len2, i). nat (len1 - i))") auto

declare vertex_loop.simps [simp del]

text \<open>The loop over \<open>k\<close>.  The locals \<open>ix\<close> and \<open>iy\<close> are declared in the loop body
  without a value: their slots are the addresses 0 and 1 of an empty memory.\<close>

function edge_loop_k :: "Point list \<Rightarrow> int \<Rightarrow> int \<Rightarrow> Point list \<Rightarrow> int \<Rightarrow> int \<Rightarrow> bool option" where
  "edge_loop_k poly1 i j poly2 len2 k =
     (if k < len2 then do {
        l \<leftarrow> imod (k + 1) len2;
        p_i \<leftarrow> point_at poly1 i;
        p_j \<leftarrow> point_at poly1 j;
        p_k \<leftarrow> point_at poly2 k;
        p_l \<leftarrow> point_at poly2 l;
        r \<leftarrow> calculate_intersection (point_x p_i) (point_y p_i) (point_x p_j) (point_y p_j)
               (point_x p_k) (point_y p_k) (point_x p_l) (point_y p_l) 0 1 Map.empty;
        if fst r \<noteq> 0 then Some True else edge_loop_k poly1 i j poly2 len2 (k + 1)
      } else Some False)"
  by pat_completeness auto
termination
  by (relation "measure (\<lambda>(poly1, i, j, poly2, len2, k). nat (len2 - k))") auto

declare edge_loop_k.simps [simp del]

function edge_loop_i :: "Point list \<Rightarrow> int \<Rightarrow> Point list \<Rightarrow> int \<Rightarrow> int \<Rightarrow> bool option" where
  "edge_loop_i poly1 len1 poly2 len2 i =
     (if i < len1 then do {
        j \<leftarrow> imod (i + 1) len1;
        hit \<leftarrow> edge_loop_k poly1 i j poly2 len2 0;
        if hit then Some True else edge_loop_i poly1 len1 poly2 len2 (i + 1)
      } else Some False)"
  by pat_completeness auto
termination
  by (relation "measure (\<lambda>(poly1, len1, poly2, len2, i). nat (len1 - i))") auto

declare edge_loop_i.simps [simp del]

definition do_polygons_intersect :: "Point list \<Rightarrow> int \<Rightarrow> Point list \<Rightarrow> int \<Rightarrow> bool option" where
  "do_polygons_intersect poly1 len1 poly2 len2 = do {
     found1 \<leftarrow> vertex_loop poly1 len1 poly2 len2 0;
     if found1 then Some True
     else do {
       found2 \<leftarrow> vertex_loop poly2 len2 poly1 len1 0;
       if found2 then Some True
       else edge_loop_i poly1 len1 poly2 len2 0
     }
   }"

section \<open>Point buffers\<close>

text \<open>\<open>create_point_array\<close> returns \<open>malloc(length * sizeof(Point))\<close>: room for
  \<open>length\<close> points whose contents are not specified.  The model is the relation between
  the argument and the buffers that a successful call may return.\<close>

definition create_point_array :: "int \<Rightarrow> Point list \<Rightarrow> bool" where
  "create_point_array len buf = (0 \<le> len \<and> int (length buf) = len)"

text \<open>\<open>points[index].x = x; points[index].y = y;\<close>\<close>

definition set_point :: "Point list \<Rightarrow> int \<Rightarrow> double \<Rightarrow> double \<Rightarrow> Point list option" where
  "set_point points index x y = do {
     p \<leftarrow> point_at points index;
     let points1 = points[nat index := p\<lparr>point_x := x\<rparr>];
     p1 \<leftarrow> point_at points1 index;
     Some (points1[nat index := p1\<lparr>point_y := y\<rparr>])
   }"

section \<open>Definitions used to state the properties\<close>

text \<open>The determinant and the solution by Cramer's rule of the two line equations
  \<open>a1 x + b1 y = c1\<close> and \<open>a2 x + b2 y = c2\<close>, written out over the eight endpoint
  coordinates, and membership in the closed range spanned by two coordinates.\<close>

definition spec_determinant :: "double \<Rightarrow> double \<Rightarrow> double \<Rightarrow> double \<Rightarrow> double \<Rightarrow> double \<Rightarrow> double \<Rightarrow> double \<Rightarrow> double" where
  "spec_determinant p1x p1y p2x p2y p3x p3y p4x p4y =
     (p2y - p1y) * (p3x - p4x) - (p4y - p3y) * (p1x - p2x)"

definition spec_cramer_x :: "double \<Rightarrow> double \<Rightarrow> double \<Rightarrow> double \<Rightarrow> double \<Rightarrow> double \<Rightarrow> double \<Rightarrow> double \<Rightarrow> double" where
  "spec_cramer_x p1x p1y p2x p2y p3x p3y p4x p4y =
     ((p3x - p4x) * ((p2y - p1y) * p1x + (p1x - p2x) * p1y)
        - (p1x - p2x) * ((p4y - p3y) * p3x + (p3x - p4x) * p3y))
     / spec_determinant p1x p1y p2x p2y p3x p3y p4x p4y"

definition spec_cramer_y :: "double \<Rightarrow> double \<Rightarrow> double \<Rightarrow> double \<Rightarrow> double \<Rightarrow> double \<Rightarrow> double \<Rightarrow> double \<Rightarrow> double" where
  "spec_cramer_y p1x p1y p2x p2y p3x p3y p4x p4y =
     ((p2y - p1y) * ((p4y - p3y) * p3x + (p3x - p4x) * p3y)
        - (p4y - p3y) * ((p2y - p1y) * p1x + (p1x - p2x) * p1y))
     / spec_determinant p1x p1y p2x p2y p3x p3y p4x p4y"

definition spec_within :: "double \<Rightarrow> double \<Rightarrow> double \<Rightarrow> bool" where
  "spec_within a b v = (min a b \<le> v \<and> v \<le> max a b)"

text \<open>The crossing formula of the ray casting loop as a predicate on the two points
  \<open>points[i]\<close> and \<open>points[j]\<close>, the cyclic neighbours of an index, the number of
  indices \<open>i\<close> whose edge from \<open>points[i - 1]\<close> to \<open>points[i]\<close> the formula counts,
  and the shoelace sum over the edges from \<open>points[i]\<close> to \<open>points[i + 1]\<close>.\<close>

definition ray_crosses :: "double \<Rightarrow> double \<Rightarrow> Point \<Rightarrow> Point \<Rightarrow> bool" where
  "ray_crosses x y p_i p_j =
     ((point_y p_i > y) \<noteq> (point_y p_j > y) \<and>
      x < (point_x p_j - point_x p_i) * (y - point_y p_i) / (point_y p_j - point_y p_i)
            + point_x p_i)"

definition prev_index :: "nat \<Rightarrow> nat \<Rightarrow> nat" where
  "prev_index n k = (k + n - 1) mod n"

definition next_index :: "nat \<Rightarrow> nat \<Rightarrow> nat" where
  "next_index n k = (k + 1) mod n"

definition crossing_count :: "double \<Rightarrow> double \<Rightarrow> Point list \<Rightarrow> nat" where
  "crossing_count x y ps =
     length (filter (\<lambda>k. ray_crosses x y (ps ! k) (ps ! prev_index (length ps) k))
               [0..<length ps])"


text \<open>The flag that \<open>calculate_intersection\<close> returns when it is called as in
  \<open>do_polygons_intersect\<close>, with the slots of the locals \<open>ix\<close> and \<open>iy\<close>.\<close>

definition segment_test :: "Point \<Rightarrow> Point \<Rightarrow> Point \<Rightarrow> Point \<Rightarrow> int option" where
  "segment_test p1 p2 p3 p4 =
     map_option fst (calculate_intersection (point_x p1) (point_y p1) (point_x p2) (point_y p2)
        (point_x p3) (point_y p3) (point_x p4) (point_y p4) 0 1 Map.empty)"


definition square_at :: "double \<Rightarrow> double \<Rightarrow> double \<Rightarrow> Point list" where
  "square_at a b d = [\<lparr>point_x = a, point_y = b\<rparr>, \<lparr>point_x = a + d, point_y = b\<rparr>,
                      \<lparr>point_x = a + d, point_y = b + d\<rparr>, \<lparr>point_x = a, point_y = b + d\<rparr>]"

text \<open>A caller that writes the coordinate pairs \<open>cs\<close> into a buffer with \<open>set_point\<close>,
  at the indices \<open>i\<close>, \<open>i + 1\<close>, \<open>\<dots>\<close> in turn, and the point sequence that the
  pairs stand for.\<close>

definition point_of :: "double \<times> double \<Rightarrow> Point" where
  "point_of c = \<lparr>point_x = fst c, point_y = snd c\<rparr>"

fun write_points :: "Point list \<Rightarrow> int \<Rightarrow> (double \<times> double) list \<Rightarrow> Point list option" where
  "write_points buf i [] = Some buf"
| "write_points buf i (c # cs) = do {
     buf1 \<leftarrow> set_point buf i (fst c) (snd c);
     write_points buf1 (i + 1) cs
   }"

section \<open>Arithmetic on indices\<close>

lemma imod_nonneg: "0 \<le> a \<Longrightarrow> 0 < b \<Longrightarrow> imod a b = Some (a mod b)"
  by (simp add: imod_def smod_int_alt_def sgn_if)

lemma point_at_in_range:
  "0 \<le> i \<Longrightarrow> i < int (length ps) \<Longrightarrow> point_at ps i = Some (ps ! nat i)"
  by (simp add: point_at_def)

lemma next_index_less: "0 < n \<Longrightarrow> next_index n k < n"
  by (simp add: next_index_def)

lemma imod_next:
  assumes "0 \<le> i" "i < int n"
  shows "imod (i + 1) (int n) = Some (int (next_index n (nat i)))"
proof -
  have a: "int (nat i + 1) = i + 1"
    using assms by simp
  have "int (next_index n (nat i)) = int (nat i + 1) mod int n"
    unfolding next_index_def by (rule zmod_int)
  then have b: "int (next_index n (nat i)) = (i + 1) mod int n"
    unfolding a .
  show ?thesis
    unfolding b using assms by (simp add: imod_nonneg)
qed

lemma prev_index_eq:
  "0 < n \<Longrightarrow> prev_index n 0 = n - 1"
  "0 < k \<Longrightarrow> k < n \<Longrightarrow> prev_index n k = k - 1"
proof -
  show "0 < n \<Longrightarrow> prev_index n 0 = n - 1"
    by (simp add: prev_index_def)
  assume k: "0 < k" "k < n"
  then have "k + n - 1 = (k - 1) + n" by arith
  then have "prev_index n k = ((k - 1) + n) mod n"
    unfolding prev_index_def by (rule arg_cong)
  also have "\<dots> = (k - 1) mod n"
    by (rule mod_add_self2)
  also have "\<dots> = k - 1"
  proof (rule mod_less)
    show "k - 1 < n" using k by arith
  qed
  finally show "prev_index n k = k - 1" .
qed

lemma nat_prev:
  assumes "0 \<le> i" "i < int n"
  shows "nat (if i = 0 then int n - 1 else i - 1) = prev_index n (nat i)"
proof (cases "i = 0")
  case True
  with assms show ?thesis by (simp add: prev_index_eq nat_diff_distrib')
next
  case False
  with assms have "0 < nat i" "nat i < n" by auto
  then have "prev_index n (nat i) = nat i - 1"
    by (rule prev_index_eq)
  with False assms show ?thesis by (simp add: nat_diff_distrib')
qed

lemma ex_from_unfold:
  fixes k n :: nat
  assumes "k < n"
  shows "(\<exists>m. k \<le> m \<and> m < n \<and> P m) = (P k \<or> (\<exists>m. Suc k \<le> m \<and> m < n \<and> P m))"
proof
  assume "\<exists>m. k \<le> m \<and> m < n \<and> P m"
  then obtain m where m: "k \<le> m" "m < n" "P m" by blast
  show "P k \<or> (\<exists>m. Suc k \<le> m \<and> m < n \<and> P m)"
  proof (cases "m = k")
    case True
    with m show ?thesis by simp
  next
    case False
    with m have "Suc k \<le> m" by arith
    with m show ?thesis by blast
  qed
next
  assume "P k \<or> (\<exists>m. Suc k \<le> m \<and> m < n \<and> P m)"
  then show "\<exists>m. k \<le> m \<and> m < n \<and> P m"
  proof
    assume "P k"
    with assms show ?thesis by blast
  next
    assume "\<exists>m. Suc k \<le> m \<and> m < n \<and> P m"
    then obtain m where "Suc k \<le> m" "m < n" "P m" by blast
    then have "k \<le> m \<and> m < n \<and> P m" by simp
    then show ?thesis ..
  qed
qed

lemma ex_less_4:
  "(\<exists>i. i < (4::nat) \<and> P i) = (P 0 \<or> P (Suc 0) \<or> P 2 \<or> P 3)"
proof -
  have "\<And>i::nat. i < 4 \<longleftrightarrow> i = 0 \<or> i = Suc 0 \<or> i = 2 \<or> i = 3" by arith
  then show ?thesis by auto
qed


section \<open>Segment intersection: flag, point and output slots\<close>



lemma calc_distinct:
  assumes "ix \<noteq> iy"
  shows "calculate_intersection p1x p1y p2x p2y p3x p3y p4x p4y ix iy s =
    (let d = spec_determinant p1x p1y p2x p2y p3x p3y p4x p4y;
         X = spec_cramer_x p1x p1y p2x p2y p3x p3y p4x p4y;
         Y = spec_cramer_y p1x p1y p2x p2y p3x p3y p4x p4y
     in if d = 0 then Some (0, s)
        else Some (if spec_within p1x p2x X \<and> spec_within p1y p2y Y \<and>
                      spec_within p3x p4x X \<and> spec_within p3y p4y Y then 1 else 0,
                   s(ix \<mapsto> X, iy \<mapsto> Y)))"
  using assms
  by (simp add: calculate_intersection_def spec_determinant_def spec_cramer_x_def
       spec_cramer_y_def Let_def fdiv_def on_segment_def spec_within_def)



lemma calc_flag:
  "\<exists>flag s'. calculate_intersection p1x p1y p2x p2y p3x p3y p4x p4y ix iy s = Some (flag, s')
     \<and> (flag = 0 \<or> flag = 1)"
  by (cases "ix = iy")
     (simp_all add: calculate_intersection_def Let_def fdiv_def on_segment_def)

lemma segment_test_separated:
  assumes "max (point_x p1) (point_x p2) < min (point_x p3) (point_x p4)
         \<or> max (point_x p3) (point_x p4) < min (point_x p1) (point_x p2)
         \<or> max (point_y p1) (point_y p2) < min (point_y p3) (point_y p4)
         \<or> max (point_y p3) (point_y p4) < min (point_y p1) (point_y p2)"
  shows "segment_test p1 p2 p3 p4 = Some 0"
proof -
  have d: "(0::addr) \<noteq> 1" by simp
  show ?thesis
    using assms unfolding segment_test_def calc_distinct [OF d] spec_within_def Let_def
    by auto
qed





section \<open>Distance to a segment: the four cases\<close>



section \<open>Ray casting\<close>

lemma intersect_test_eq:
  "intersect_test x y xi yi xj yj =
     Some ((yi > y) \<noteq> (yj > y) \<and> x < (xj - xi) * (y - yi) / (yj - yi) + xi)"
  by (auto simp: intersect_test_def fdiv_def)

lemma is_point_in_polygon_loop_eq:
  "0 \<le> i \<Longrightarrow> len = int (length ps) \<Longrightarrow> j = (if i = 0 then len - 1 else i - 1) \<Longrightarrow>
   is_point_in_polygon_loop x y ps len i j inside =
     Some (inside \<noteq> odd (length (filter
        (\<lambda>k. ray_crosses x y (ps ! k) (ps ! prev_index (length ps) k)) [nat i..<length ps])))"
proof (induction x y ps len i j inside rule: is_point_in_polygon_loop.induct)
  case (1 x y points len i j inside)
  show ?case
  proof (cases "i < len")
    case False
    with "1.prems" show ?thesis
      by (subst is_point_in_polygon_loop.simps) simp
  next
    case True
    let ?n = "length points"
    let ?c = "ray_crosses x y (points ! nat i) (points ! prev_index ?n (nat i))"
    have pi: "point_at points i = Some (points ! nat i)"
      using True "1.prems" by (simp add: point_at_in_range)
    have jr: "0 \<le> j" "j < int ?n"
      using True "1.prems" by (auto split: if_splits)
    have jn: "nat j = prev_index ?n (nat i)"
      using nat_prev [of i ?n] True "1.prems" by (auto split: if_splits)
    have pj: "point_at points j = Some (points ! prev_index ?n (nat i))"
      using jr jn by (simp add: point_at_in_range)
    have it: "intersect_test x y (point_x (points ! nat i)) (point_y (points ! nat i))
          (point_x (points ! prev_index ?n (nat i))) (point_y (points ! prev_index ?n (nat i)))
        = Some ?c"
      by (simp add: intersect_test_eq ray_crosses_def)
    have IH: "is_point_in_polygon_loop x y points len (i + 1) i (if ?c then \<not> inside else inside) =
      Some ((if ?c then \<not> inside else inside) \<noteq> odd (length (filter
        (\<lambda>k. ray_crosses x y (points ! k) (points ! prev_index ?n k)) [nat (i + 1)..<?n])))"
      using "1.IH" [OF True pi pj it] "1.prems" by simp
    have upt: "[nat i..<?n] = nat i # [nat (i + 1)..<?n]"
      using True "1.prems" by (simp add: upt_conv_Cons nat_add_distrib)
    show ?thesis
      by (subst is_point_in_polygon_loop.simps) (auto simp: True pi pj it IH upt)
  qed
qed

lemma is_point_in_polygon_eq:
  "is_point_in_polygon x y ps (int (length ps)) = Some (odd (crossing_count x y ps))"
  by (simp add: is_point_in_polygon_def crossing_count_def is_point_in_polygon_loop_eq)




lemma square_at_inside:
  assumes "0 < d"
  shows "is_point_in_polygon x y (square_at a b d) 4 =
           Some (a \<le> x \<and> x < a + d \<and> b \<le> y \<and> y < b + d)"
  using assms
  by (auto simp: square_at_def is_point_in_polygon_def is_point_in_polygon_loop.simps
      point_at_def intersect_test_def fdiv_def)

text \<open>
  C10.  The division of the crossing test runs only when \<open>(yi > y) != (yj > y)\<close> holds.
  Then \<open>yj - yi\<close> is not zero and the division returns the quotient; when the two
  comparisons agree, also when \<open>yi = yj\<close>, the test is false without dividing.  So the
  crossing test returns for all arguments, and with it \<open>is_point_in_polygon\<close> on every
  polygon: the fault of a division by zero cannot be reached.
\<close>

theorem crossing_test_never_divides_by_zero:
  "((yi > y) \<noteq> (yj > y) \<longrightarrow>
      yj - yi \<noteq> 0 \<and>
      fdiv ((xj - xi) * (y - yi)) (yj - yi) = Some ((xj - xi) * (y - yi) / (yj - yi)))
   \<and> intersect_test x y xi yi xj yj =
        Some ((yi > y) \<noteq> (yj > y) \<and> x < (xj - xi) * (y - yi) / (yj - yi) + xi)
   \<and> intersect_test x y xi yi xj yi = Some False
   \<and> (\<exists>inside. is_point_in_polygon x y ps (int (length ps)) = Some inside)"
proof -
  have "(yi > y) \<noteq> (yj > y) \<longrightarrow>
      yj - yi \<noteq> 0 \<and>
      fdiv ((xj - xi) * (y - yi)) (yj - yi) = Some ((xj - xi) * (y - yi) / (yj - yi))"
    by (auto simp: fdiv_def)
  moreover have "intersect_test x y xi yi xj yi = Some False"
    by (simp add: intersect_test_eq)
  moreover have "\<exists>inside. is_point_in_polygon x y ps (int (length ps)) = Some inside"
    by (simp add: is_point_in_polygon_eq)
  ultimately show ?thesis
    using intersect_test_eq [of x y xi yi xj yj] by simp
qed

theorem crossing_test_never_divides_by_zero_witness:
  "fdiv ((3 - 1) * (1 - 0)) (2 - 0) = Some 1
   \<and> intersect_test 0 1 1 0 3 2 = Some True
   \<and> intersect_test 0 1 1 0 3 0 = Some False"
  using crossing_test_never_divides_by_zero
          [where yi = 0 and y = 1 and yj = 2 and xi = 1 and xj = 3 and x = 0 and ps = "[]"]
  by simp


section \<open>Area, perimeter and bounding box of a polygon\<close>








text \<open>
  C7.  With length 0 no operation faults, whatever the buffer holds: the area is 0, the
  perimeter is 0, the bounding box writes 0 through each of its four output slots, and
  no point is inside the polygon.
\<close>

theorem zero_vertex_polygon_sentinels:
  "calculate_polygon_area points 0 = Some 0 \<and>
   calculate_polygon_perimeter points 0 = Some 0 \<and>
   calculate_bounding_box points 0 minX minY maxX maxY s =
     Some (s(minX \<mapsto> 0, minY \<mapsto> 0, maxX \<mapsto> 0, maxY \<mapsto> 0)) \<and>
   is_point_in_polygon x y points 0 = Some False"
  by (simp add: calculate_polygon_area_def calculate_polygon_perimeter_def
      calculate_bounding_box_def is_point_in_polygon_def fdiv_def
      calculate_polygon_area_loop.simps calculate_polygon_perimeter_loop.simps
      is_point_in_polygon_loop.simps)


section \<open>Intersection of polygons\<close>

lemma vertex_loop_eq:
  "0 \<le> i \<Longrightarrow> len1 = int (length poly1) \<Longrightarrow> len2 = int (length poly2) \<Longrightarrow>
   vertex_loop poly1 len1 poly2 len2 i =
     Some (\<exists>m. nat i \<le> m \<and> m < length poly1 \<and>
        is_point_in_polygon (point_x (poly1 ! m)) (point_y (poly1 ! m)) poly2 len2 = Some True)"
proof (induction poly1 len1 poly2 len2 i rule: vertex_loop.induct)
  case (1 poly1 len1 poly2 len2 i)
  let ?P = "\<lambda>m. is_point_in_polygon (point_x (poly1 ! m)) (point_y (poly1 ! m)) poly2 len2 = Some True"
  show ?case
  proof (cases "i < len1")
    case False
    with "1.prems" show ?thesis
      by (subst vertex_loop.simps) auto
  next
    case True
    have pi: "point_at poly1 i = Some (poly1 ! nat i)"
      using True "1.prems" by (simp add: point_at_in_range)
    obtain b where b: "is_point_in_polygon (point_x (poly1 ! nat i)) (point_y (poly1 ! nat i)) poly2 len2 = Some b"
      using "1.prems" by (simp add: is_point_in_polygon_eq)
    show ?thesis
    proof (cases b)
      case True
      with b \<open>i < len1\<close> "1.prems" have "\<exists>m. nat i \<le> m \<and> m < length poly1 \<and> ?P m"
        by (intro exI [of _ "nat i"]) auto
      with True b \<open>i < len1\<close> show ?thesis
        by (subst vertex_loop.simps) (simp add: pi)
    next
      case False
      have IH: "vertex_loop poly1 len1 poly2 len2 (i + 1) =
          Some (\<exists>m. nat (i + 1) \<le> m \<and> m < length poly1 \<and> ?P m)"
        using "1.IH" [OF \<open>i < len1\<close> pi b False] "1.prems" by simp
      have "(\<exists>m. nat i \<le> m \<and> m < length poly1 \<and> ?P m) = (\<exists>m. nat (i + 1) \<le> m \<and> m < length poly1 \<and> ?P m)"
      proof
        assume "\<exists>m. nat i \<le> m \<and> m < length poly1 \<and> ?P m"
        then obtain m where m: "nat i \<le> m" "m < length poly1" "?P m" by blast
        with b False have "m \<noteq> nat i" by auto
        with m "1.prems" have "nat (i + 1) \<le> m" by auto
        with m show "\<exists>m. nat (i + 1) \<le> m \<and> m < length poly1 \<and> ?P m" by blast
      next
        assume "\<exists>m. nat (i + 1) \<le> m \<and> m < length poly1 \<and> ?P m"
        then obtain m where m: "nat (i + 1) \<le> m" "m < length poly1" "?P m" by blast
        then have "nat i \<le> m" by auto
        with m show "\<exists>m. nat i \<le> m \<and> m < length poly1 \<and> ?P m" by blast
      qed
      with False b \<open>i < len1\<close> IH show ?thesis
        by (subst vertex_loop.simps) (simp add: pi)
    qed
  qed
qed


lemma edge_loop_k_eq:
  assumes ij: "0 \<le> i" "i < int (length poly1)" "0 \<le> j" "j < int (length poly1)"
  shows "0 \<le> k \<Longrightarrow> len2 = int (length poly2) \<Longrightarrow>
   edge_loop_k poly1 i j poly2 len2 k =
     Some (\<exists>m. nat k \<le> m \<and> m < length poly2 \<and>
        segment_test (poly1 ! nat i) (poly1 ! nat j) (poly2 ! m)
          (poly2 ! next_index (length poly2) m) = Some 1)"
  using ij
proof (induction poly1 i j poly2 len2 k rule: edge_loop_k.induct)
  case (1 poly1 i j poly2 len2 k)
  let ?n = "length poly2"
  let ?T = "\<lambda>m. segment_test (poly1 ! nat i) (poly1 ! nat j) (poly2 ! m) (poly2 ! next_index ?n m)"
  show ?case
  proof (cases "k < len2")
    case False
    with "1.prems" show ?thesis
      by (subst edge_loop_k.simps) auto
  next
    case True
    let ?l = "next_index ?n (nat k)"
    have n: "0 < ?n" and kn: "nat k < ?n" and suc: "nat (k + 1) = Suc (nat k)"
      using True "1.prems" by auto
    have l: "imod (k + 1) len2 = Some (int ?l)"
      using True "1.prems" by (simp add: imod_next)
    have p_i: "point_at poly1 i = Some (poly1 ! nat i)"
      and p_j: "point_at poly1 j = Some (poly1 ! nat j)"
      and p_k: "point_at poly2 k = Some (poly2 ! nat k)"
      using True "1.prems" by (simp_all add: point_at_in_range)
    have p_l: "point_at poly2 (int ?l) = Some (poly2 ! ?l)"
      using next_index_less [OF n] by (simp add: point_at_in_range)
    obtain r where r: "calculate_intersection (point_x (poly1 ! nat i)) (point_y (poly1 ! nat i))
        (point_x (poly1 ! nat j)) (point_y (poly1 ! nat j))
        (point_x (poly2 ! nat k)) (point_y (poly2 ! nat k))
        (point_x (poly2 ! ?l)) (point_y (poly2 ! ?l)) 0 1 Map.empty = Some r"
      and flag: "fst r = 0 \<or> fst r = 1"
      using calc_flag [of "point_x (poly1 ! nat i)" "point_y (poly1 ! nat i)"
        "point_x (poly1 ! nat j)" "point_y (poly1 ! nat j)"
        "point_x (poly2 ! nat k)" "point_y (poly2 ! nat k)"
        "point_x (poly2 ! ?l)" "point_y (poly2 ! ?l)" 0 1 Map.empty]
      by auto
    have T: "?T (nat k) = Some (fst r)"
      unfolding segment_test_def r by simp
    show ?thesis
    proof (cases "fst r \<noteq> 0")
      case True
      with flag T have "?T (nat k) = Some 1" by auto
      then have "(\<exists>m. nat k \<le> m \<and> m < ?n \<and> ?T m = Some 1) = True"
        using kn by auto
      then show ?thesis
        using True \<open>k < len2\<close>
        by (subst edge_loop_k.simps) (simp add: l p_i p_j p_k p_l r del: One_nat_def)
    next
      case False
      have IH: "edge_loop_k poly1 i j poly2 len2 (k + 1) =
          Some (\<exists>m. nat (k + 1) \<le> m \<and> m < ?n \<and> ?T m = Some 1)"
        using "1.IH" [OF \<open>k < len2\<close> l p_i p_j p_k p_l r False] "1.prems" by simp
      have "(\<exists>m. nat k \<le> m \<and> m < ?n \<and> ?T m = Some 1)
          = (\<exists>m. nat (k + 1) \<le> m \<and> m < ?n \<and> ?T m = Some 1)"
        using False T by (simp add: ex_from_unfold [OF kn] suc)
      then show ?thesis
        using False \<open>k < len2\<close> IH
        by (subst edge_loop_k.simps) (simp add: l p_i p_j p_k p_l r del: One_nat_def)
    qed
  qed
qed

lemma edge_loop_i_eq:
  "0 \<le> i \<Longrightarrow> len1 = int (length poly1) \<Longrightarrow> len2 = int (length poly2) \<Longrightarrow>
   edge_loop_i poly1 len1 poly2 len2 i =
     Some (\<exists>m. nat i \<le> m \<and> m < length poly1 \<and>
        (\<exists>q. 0 \<le> q \<and> q < length poly2 \<and>
           segment_test (poly1 ! m) (poly1 ! next_index (length poly1) m) (poly2 ! q)
             (poly2 ! next_index (length poly2) q) = Some 1))"
proof (induction poly1 len1 poly2 len2 i rule: edge_loop_i.induct)
  case (1 poly1 len1 poly2 len2 i)
  let ?n = "length poly1"
  let ?Q = "\<lambda>m. \<exists>q. 0 \<le> q \<and> q < length poly2 \<and>
           segment_test (poly1 ! m) (poly1 ! next_index ?n m) (poly2 ! q)
             (poly2 ! next_index (length poly2) q) = Some 1"
  show ?case
  proof (cases "i < len1")
    case False
    with "1.prems" show ?thesis
      by (subst edge_loop_i.simps) auto
  next
    case True
    let ?j = "next_index ?n (nat i)"
    have n: "0 < ?n" and kn: "nat i < ?n" and suc: "nat (i + 1) = Suc (nat i)"
      using True "1.prems" by auto
    have j: "imod (i + 1) len1 = Some (int ?j)"
      using True "1.prems" by (simp add: imod_next)
    have hit: "edge_loop_k poly1 i (int ?j) poly2 len2 0 = Some (?Q (nat i))"
      using edge_loop_k_eq [of i poly1 "int ?j" 0 len2 poly2] True "1.prems" next_index_less [OF n]
      by simp
    show ?thesis
    proof (cases "?Q (nat i)")
      case True
      then have "(\<exists>m. nat i \<le> m \<and> m < ?n \<and> ?Q m) = True"
        using kn by (simp add: ex_from_unfold [OF kn])
      then show ?thesis
        using True \<open>i < len1\<close>
        by (subst edge_loop_i.simps) (simp add: j hit)
    next
      case False
      have IH: "edge_loop_i poly1 len1 poly2 len2 (i + 1) =
          Some (\<exists>m. nat (i + 1) \<le> m \<and> m < ?n \<and> ?Q m)"
        using "1.IH" [OF \<open>i < len1\<close> j hit] False "1.prems" by simp
      have "(\<exists>m. nat i \<le> m \<and> m < ?n \<and> ?Q m) = (\<exists>m. nat (i + 1) \<le> m \<and> m < ?n \<and> ?Q m)"
        using False ex_from_unfold [OF kn, of ?Q] unfolding suc by blast
      moreover have "edge_loop_k poly1 i (int ?j) poly2 len2 0 = Some False"
        using hit False by simp
      ultimately show ?thesis
        using \<open>i < len1\<close> IH
        by (subst edge_loop_i.simps) (simp add: j)
    qed
  qed
qed

lemma do_polygons_intersect_eq:
  "do_polygons_intersect poly1 (int (length poly1)) poly2 (int (length poly2)) = Some (
     (\<exists>i. i < length poly1 \<and>
        is_point_in_polygon (point_x (poly1 ! i)) (point_y (poly1 ! i)) poly2 (int (length poly2)) = Some True)
   \<or> (\<exists>k. k < length poly2 \<and>
        is_point_in_polygon (point_x (poly2 ! k)) (point_y (poly2 ! k)) poly1 (int (length poly1)) = Some True)
   \<or> (\<exists>i k. i < length poly1 \<and> k < length poly2 \<and>
        segment_test (poly1 ! i) (poly1 ! next_index (length poly1) i)
                     (poly2 ! k) (poly2 ! next_index (length poly2) k) = Some 1))"
  by (auto simp: do_polygons_intersect_def vertex_loop_eq edge_loop_i_eq)


lemma square_at_nth:
  "length (square_at a b d) = 4"
  "square_at a b d ! 0 = \<lparr>point_x = a, point_y = b\<rparr>"
  "square_at a b d ! Suc 0 = \<lparr>point_x = a + d, point_y = b\<rparr>"
  "square_at a b d ! 2 = \<lparr>point_x = a + d, point_y = b + d\<rparr>"
  "square_at a b d ! 3 = \<lparr>point_x = a, point_y = b + d\<rparr>"
  by (simp_all add: square_at_def)

lemma next_index_4:
  "next_index 4 0 = Suc 0" "next_index 4 (Suc 0) = 2" "next_index 4 2 = 3" "next_index 4 3 = 0"
  by (simp_all add: next_index_def)

lemma do_polygons_intersect_squares:
  "do_polygons_intersect (square_at a1 b1 d1) 4 (square_at a2 b2 d2) 4 = Some (
     (\<exists>i. i < 4 \<and>
        is_point_in_polygon (point_x (square_at a1 b1 d1 ! i)) (point_y (square_at a1 b1 d1 ! i)) (square_at a2 b2 d2) 4 = Some True)
   \<or> (\<exists>k. k < 4 \<and>
        is_point_in_polygon (point_x (square_at a2 b2 d2 ! k)) (point_y (square_at a2 b2 d2 ! k)) (square_at a1 b1 d1) 4 = Some True)
   \<or> (\<exists>i. i < 4 \<and> (\<exists>k. k < 4 \<and>
        segment_test (square_at a1 b1 d1 ! i) (square_at a1 b1 d1 ! next_index 4 i)
                     (square_at a2 b2 d2 ! k) (square_at a2 b2 d2 ! next_index 4 k) = Some 1)))"
  using do_polygons_intersect_eq [of "square_at a1 b1 d1" "square_at a2 b2 d2"]
  by (simp add: square_at_nth(1))

lemma identical_squares_intersect:
  assumes "0 < d"
  shows "do_polygons_intersect (square_at a b d) 4 (square_at a b d) 4 = Some True"
  using assms
  by (simp add: do_polygons_intersect_squares ex_less_4 square_at_nth square_at_inside)

lemma far_squares_disjoint:
  assumes "0 < d1" "0 < d2" "d1 + d2 < \<bar>a2 - a1\<bar> \<or> d1 + d2 < \<bar>b2 - b1\<bar>"
  shows "do_polygons_intersect (square_at a1 b1 d1) 4 (square_at a2 b2 d2) 4 = Some False"
proof -
  consider "a1 + d1 + d2 < a2" | "a2 + d1 + d2 < a1" | "b1 + d1 + d2 < b2" | "b2 + d1 + d2 < b1"
    using assms(3) by linarith
  then show ?thesis
  proof cases
    case 1
    with assms(1,2) show ?thesis
      by (simp add: do_polygons_intersect_squares ex_less_4 square_at_nth square_at_inside
            next_index_4 segment_test_separated)
  next
    case 2
    with assms(1,2) show ?thesis
      by (simp add: do_polygons_intersect_squares ex_less_4 square_at_nth square_at_inside
            next_index_4 segment_test_separated)
  next
    case 3
    with assms(1,2) show ?thesis
      by (simp add: do_polygons_intersect_squares ex_less_4 square_at_nth square_at_inside
            next_index_4 segment_test_separated)
  next
    case 4
    with assms(1,2) show ?thesis
      by (simp add: do_polygons_intersect_squares ex_less_4 square_at_nth square_at_inside
            next_index_4 segment_test_separated)
  qed
qed


text \<open>
  C3.  \<open>do_polygons_intersect\<close> returns true for a square and the same square again,
  the unit square among them, and false for two squares whose corners are further
  apart, in \<open>x\<close> or in \<open>y\<close>, than the sum of their sides.
\<close>

theorem squares_identical_or_far_apart:
  "(0 < d \<longrightarrow> do_polygons_intersect (square_at a b d) 4 (square_at a b d) 4 = Some True)
   \<and> do_polygons_intersect (square_at 0 0 1) 4 (square_at 0 0 1) 4 = Some True
   \<and> (0 < da \<and> 0 < db \<and> (da + db < \<bar>xb - xa\<bar> \<or> da + db < \<bar>yb - ya\<bar>) \<longrightarrow>
        do_polygons_intersect (square_at xa ya da) 4 (square_at xb yb db) 4 = Some False)"
  using identical_squares_intersect [of d a b] identical_squares_intersect [of 1 0 0]
    far_squares_disjoint [of da db xb xa yb ya]
  by simp

theorem squares_identical_or_far_apart_witness:
  "do_polygons_intersect (square_at 3 5 2) 4 (square_at 3 5 2) 4 = Some True
   \<and> do_polygons_intersect (square_at 0 0 1) 4 (square_at 10 10 1) 4 = Some False"
  using squares_identical_or_far_apart
          [where d = 2 and a = 3 and b = 5 and da = 1 and db = 1
             and xa = 0 and ya = 0 and xb = 10 and yb = 10]
  by simp

section \<open>Writing a polygon into a buffer\<close>

lemma set_point_eq:
  "0 \<le> i \<Longrightarrow> i < int (length buf) \<Longrightarrow>
   set_point buf i x y = Some (buf[nat i := \<lparr>point_x = x, point_y = y\<rparr>])"
  by (cases "buf ! nat i") (simp add: set_point_def point_at_def)

lemma write_points_eq:
  "0 \<le> i \<Longrightarrow> length buf = nat i + length cs \<Longrightarrow>
   write_points buf i cs = Some (take (nat i) buf @ map point_of cs)"
proof (induction cs arbitrary: buf i)
  case Nil
  then show ?case by simp
next
  case (Cons c cs)
  let ?buf1 = "buf[nat i := point_of c]"
  have sp: "set_point buf i (fst c) (snd c) = Some ?buf1"
    using Cons.prems by (simp add: set_point_eq point_of_def)
  have "write_points ?buf1 (i + 1) cs = Some (take (nat (i + 1)) ?buf1 @ map point_of cs)"
    using Cons.prems by (intro Cons.IH) (simp_all add: nat_add_distrib)
  moreover have "take (nat (i + 1)) ?buf1 = take (nat i) buf @ [point_of c]"
    using Cons.prems by (simp add: nat_add_distrib take_Suc_conv_app_nth)
  ultimately show ?case
    by (simp add: sp)
qed


text \<open>
  C8.  For every \<open>N\<close> and every sequence of \<open>N\<close> coordinate pairs: when the pairs are
  written with \<open>set_point\<close> at the indices \<open>0\<close> to \<open>N - 1\<close> of a buffer that
  \<open>create_point_array\<close> returned for \<open>N\<close> points, no write faults, the buffer then holds
  the point sequence, and area, perimeter, bounding box and point-in-polygon on the
  buffer with length \<open>N\<close> give what they give on the point sequence.
\<close>

theorem set_point_round_trip:
  assumes "create_point_array (int (length cs)) buf"
  shows "write_points buf 0 cs = Some (map point_of cs)
   \<and> write_points buf 0 cs \<bind> (\<lambda>b. calculate_polygon_area b (int (length cs)))
       = calculate_polygon_area (map point_of cs) (int (length cs))
   \<and> write_points buf 0 cs \<bind> (\<lambda>b. calculate_polygon_perimeter b (int (length cs)))
       = calculate_polygon_perimeter (map point_of cs) (int (length cs))
   \<and> write_points buf 0 cs
       \<bind> (\<lambda>b. calculate_bounding_box b (int (length cs)) minX minY maxX maxY s)
       = calculate_bounding_box (map point_of cs) (int (length cs)) minX minY maxX maxY s
   \<and> write_points buf 0 cs \<bind> (\<lambda>b. is_point_in_polygon x y b (int (length cs)))
       = is_point_in_polygon x y (map point_of cs) (int (length cs))"
proof -
  have "length buf = nat 0 + length cs"
    using assms by (simp add: create_point_array_def)
  then have "write_points buf 0 cs = Some (take (nat 0) buf @ map point_of cs)"
    by (intro write_points_eq) simp_all
  then show ?thesis by simp
qed

theorem set_point_round_trip_witness:
  "write_points [\<lparr>point_x = 7, point_y = 8\<rparr>, \<lparr>point_x = 9, point_y = 9\<rparr>] 0 [(1, 2), (3, 4)]
     = Some [\<lparr>point_x = 1, point_y = 2\<rparr>, \<lparr>point_x = 3, point_y = 4\<rparr>]"
proof -
  have "create_point_array (int (length [(1::double, 2::double), (3, 4)]))
          [\<lparr>point_x = 7, point_y = 8\<rparr>, \<lparr>point_x = 9, point_y = 9\<rparr>]"
    by (simp add: create_point_array_def)
  from set_point_round_trip [OF this] show ?thesis
    by (simp add: point_of_def)
qed

end
